theory Spec2Isabelle
  imports Main "HOL-Library.AList" "HOL-Library.Multiset" "HOL-Library.Char_ord"
    "HOL-Library.List_Lexorder"
begin

section \<open>The document store\<close>

text \<open>
  Both scripts keep their articles in one MongoDB collection and work on Python
  dictionaries. A dictionary with a known set of keys is a record whose fields are
  optional: \<open>None\<close> is an absent key. The same dictionary that the parser returns
  is handed to \<open>insert_one\<close> or to \<open>$set\<close>, so parsed articles and stored
  documents share one type. The value of \<open>_id\<close> is either a string (a PMID used as
  key) or an ObjectId generated by the driver for a document inserted without \<open>_id\<close>.
  What is logged and mailed, profiling and the transport are left out, except where
  they decide the outcome: \<open>setup_logger\<close> raises, and the handler of
  \<open>update_database\<close> reports what it raises again. The merge and the resolution
  follow main\_ftp.py; main.py is an earlier variant of the same run that works on
  the untyped nested dictionaries of xmltodict, and only its file numbers and its
  choice of links are modelled.
\<close>

datatype ident = StrId string | ObjectId nat

text \<open>
  The exceptions of the two scripts: a missing dictionary key, \<open>[0]\<close> on an empty
  list, a name that is not defined, \<open>.group\<close> on \<open>None\<close>, the two write errors of
  MongoDB, and whatever download, decompression or the parser raise.
\<close>

datatype error =
    KeyError string
  | IndexError
  | NameError string
  | AttributeError
  | DuplicateKeyError
  | WriteError
  | FetchError

datatype 's outcome = Done 's | Raised error 's

record reference_doc =
  ref_pmid :: string
  idArticle :: "ident option"

record document =
  doc_id :: "ident option"
  filename :: "string option"
  pmid :: "string option"
  reference :: "string option"
  updated :: "bool option"
  references :: "reference_doc list option"
  body :: "(string \<times> string) list"

type_synonym collection = "document list"

text \<open>\<open>collection.find_one({'_id': k})\<close>: the first document whose \<open>_id\<close> is \<open>k\<close>.\<close>

definition find_one_id :: "collection \<Rightarrow> ident \<Rightarrow> document option" where
  "find_one_id coll k = find (\<lambda>d. doc_id d = Some k) coll"

text \<open>The ObjectId of a document inserted without \<open>_id\<close>: one the collection does not hold.\<close>

fun oid_num :: "ident option \<Rightarrow> nat" where
  "oid_num (Some (ObjectId n)) = n"
| "oid_num _ = 0"

definition fresh_id :: "collection \<Rightarrow> ident" where
  "fresh_id coll = ObjectId (Suc (foldr max (map (oid_num \<circ> doc_id) coll) 0))"

text \<open>
  \<open>collection.insert_one(d)\<close>: a document without \<open>_id\<close> gets a generated one, a
  document whose \<open>_id\<close> is taken raises DuplicateKeyError; the document goes to the
  end of the collection.
\<close>

definition insert_one :: "collection \<Rightarrow> document \<Rightarrow> collection outcome" where
  "insert_one coll d =
     (case doc_id d of
        None \<Rightarrow> Done (coll @ [d\<lparr>doc_id := Some (fresh_id coll)\<rparr>])
      | Some k \<Rightarrow>
          (if find_one_id coll k \<noteq> None then Raised DuplicateKeyError coll
           else Done (coll @ [d])))"

text \<open>\<open>{'$set': a}\<close> on a stored document \<open>d\<close>: every key of \<open>a\<close> replaces the key of \<open>d\<close>.\<close>

definition over :: "'a option \<Rightarrow> 'a option \<Rightarrow> 'a option" where
  "over old new = (case new of None \<Rightarrow> old | Some v \<Rightarrow> Some v)"

definition set_fields :: "document \<Rightarrow> document \<Rightarrow> document" where
  "set_fields a d =
     \<lparr> doc_id = doc_id d,
       filename = over (filename d) (filename a),
       pmid = over (pmid d) (pmid a),
       reference = over (reference d) (reference a),
       updated = over (updated d) (updated a),
       references = over (references d) (references a),
       body = AList.merge (body d) (body a) \<rparr>"

text \<open>\<open>collection.update_one({'_id': k}, ...)\<close>: the first document with that \<open>_id\<close> changes.\<close>

fun update_one :: "ident \<Rightarrow> (document \<Rightarrow> document) \<Rightarrow> collection \<Rightarrow> collection" where
  "update_one k f [] = []"
| "update_one k f (d # ds) =
     (if doc_id d = Some k then f d # ds else d # update_one k f ds)"

text \<open>
  \<open>update_one({'_id': k}, {'$set': a})\<close>: MongoDB refuses a \<open>$set\<close> that would
  change \<open>_id\<close>.
\<close>

definition update_set :: "collection \<Rightarrow> ident \<Rightarrow> document \<Rightarrow> collection outcome" where
  "update_set coll k a =
     (if doc_id a \<noteq> None \<and> doc_id a \<noteq> Some k then Raised WriteError coll
      else Done (update_one k (set_fields a) coll))"

section \<open>File numbers (main\_ftp.py, \<open>parse_filename\<close>)\<close>

definition is_digit :: "char \<Rightarrow> bool" where
  "is_digit c = (c \<in> set ''0123456789'')"

definition digit_val :: "char \<Rightarrow> int" where
  "digit_val c = int (of_char c) - 48"

text \<open>\<open>int(ds)\<close> on a string of decimal digits.\<close>

definition int_of_digits :: "string \<Rightarrow> int" where
  "int_of_digits ds = foldl (\<lambda>a c. 10 * a + digit_val c) 0 ds"

text \<open>
  \<open>re.findall('n(\d+)\.', filename)\<close>, first group of the first match: the scan goes
  left to right; at an \<open>n\<close> the digits are taken greedily and a dot must follow
  (giving digits back cannot help: the next character is then a digit, not a dot).
  Characters are bytes here, so \<open>\d\<close> is the ten ASCII digits.
\<close>

fun findall_first :: "string \<Rightarrow> string option" where
  "findall_first [] = None"
| "findall_first (c # cs) =
     (if c = CHR ''n'' \<and> takeWhile is_digit cs \<noteq> [] \<and>
         (case dropWhile is_digit cs of [] \<Rightarrow> False | x # _ \<Rightarrow> x = CHR ''.'')
      then Some (takeWhile is_digit cs)
      else findall_first cs)"

text \<open>\<open>int(re.findall(...)[0])\<close>; no match is an IndexError, logged and raised again.\<close>

definition parse_filename :: "string \<Rightarrow> error + int" where
  "parse_filename fname =
     (case findall_first fname of
        None \<Rightarrow> Inl IndexError
      | Some ds \<Rightarrow> Inr (int_of_digits ds))"

section \<open>Merging a parsed file (main\_ftp.py, \<open>update_database\<close>)\<close>

text \<open>\<open>s.split(';')\<close>: never empty; \<open>''.split(';')\<close> is \<open>['']\<close>.\<close>

fun split :: "char \<Rightarrow> string \<Rightarrow> string list" where
  "split sep [] = [[]]"
| "split sep (c # cs) =
     (if c = sep then [] # split sep cs
      else (case split sep cs of [] \<Rightarrow> [[c]] | w # ws \<Rightarrow> (c # w) # ws))"

text \<open>
  \<open>[{'pmid': ref, 'idArticle': None} for ref in new_references]\<close>. Python does not
  fix the order in which a set is iterated; the model lists each element once, in the
  order of \<open>remdups\<close>.
\<close>

definition reference_docs :: "string list \<Rightarrow> reference_doc list" where
  "reference_docs new_refs =
     map (\<lambda>r. \<lparr>ref_pmid = r, idArticle = None\<rparr>) (remdups new_refs)"

text \<open>\<open>set(ref['pmid'] for ref in existing_article.get('references', []))\<close>.\<close>

definition old_references :: "document \<Rightarrow> string set" where
  "old_references ex =
     set (map ref_pmid (case references ex of None \<Rightarrow> [] | Some rs \<Rightarrow> rs))"

text \<open>The body of the first loop of \<open>update_database\<close>, lines 213 to 231.\<close>

definition merge_article :: "collection \<Rightarrow> document \<Rightarrow> collection outcome" where
  "merge_article coll article =
     (case pmid article of
        None \<Rightarrow> Raised (KeyError ''pmid'') coll
      | Some p \<Rightarrow>
          (case reference article of
             None \<Rightarrow> Raised (KeyError ''reference'') coll
           | Some r \<Rightarrow>
               (let existing_article = find_one_id coll (StrId p);
                    new_references = split CHR '';'' r;
                    marked = article\<lparr>updated := Some True,
                                     references := Some (reference_docs new_references)\<rparr>
                in case existing_article of
                     Some ex \<Rightarrow>
                       (if old_references ex \<noteq> set new_references
                        then update_set coll (StrId p) marked
                        else Done coll)
                   | None \<Rightarrow> insert_one coll marked)))"

text \<open>The first loop: an exception leaves the loop with the collection as it is then.\<close>

fun merge_all :: "collection \<Rightarrow> document list \<Rightarrow> collection outcome" where
  "merge_all coll [] = Done coll"
| "merge_all coll (article # rest) =
     (case merge_article coll article of
        Done coll' \<Rightarrow> merge_all coll' rest
      | Raised e coll' \<Rightarrow> Raised e coll')"

section \<open>Resolving references (main\_ftp.py, \<open>update_database\<close>, second loop)\<close>

text \<open>Lines 237 to 239, for one entry of \<open>article['references']\<close>.\<close>

definition resolve_ref :: "collection \<Rightarrow> reference_doc \<Rightarrow> reference_doc" where
  "resolve_ref coll ref =
     (case find_one_id coll (StrId (ref_pmid ref)) of
        Some ref_article \<Rightarrow> ref\<lparr>idArticle := doc_id ref_article\<rparr>
      | None \<Rightarrow> ref)"

text \<open>
  Lines 235 to 241 over the documents the cursor of \<open>find({'updated': True})\<close>
  returns; a document is only ever written by its own iteration.
\<close>

fun resolve_loop :: "collection \<Rightarrow> document list \<Rightarrow> collection outcome" where
  "resolve_loop coll [] = Done coll"
| "resolve_loop coll (article # rest) =
     (case references article of
        None \<Rightarrow> Raised (KeyError ''references'') coll
      | Some refs \<Rightarrow>
          (case doc_id article of
             None \<Rightarrow> Raised (KeyError ''_id'') coll
           | Some k \<Rightarrow>
               resolve_loop
                 (update_one k
                    (\<lambda>d. d\<lparr>references := Some (map (resolve_ref coll) refs),
                            updated := Some False\<rparr>) coll)
                 rest))"

definition resolve_all :: "collection \<Rightarrow> collection outcome" where
  "resolve_all coll = resolve_loop coll (filter (\<lambda>d. updated d = Some True) coll)"

text \<open>\<open>update_database\<close> on the articles parsed from one file.\<close>

definition update_database :: "collection \<Rightarrow> document list \<Rightarrow> collection outcome" where
  "update_database coll articles =
     (case merge_all coll articles of
        Done coll' \<Rightarrow> resolve_all coll'
      | Raised e coll' \<Rightarrow> Raised e coll')"

text \<open>
  The handler of \<open>update_database\<close>, lines 242 to 246: an exception of the body is
  logged once, mailed once and raised again. The list holds what was reported.
\<close>

definition update_database_reports :: "collection \<Rightarrow> document list \<Rightarrow> error list" where
  "update_database_reports coll articles =
     (case update_database coll articles of
        Done coll' \<Rightarrow> []
      | Raised e coll' \<Rightarrow> [e])"

section \<open>The run (main\_ftp.py, \<open>get_last_file\<close> and \<open>main\<close>)\<close>

text \<open>\<open>collection.find_one()\<close> is the first document of the collection.\<close>

definition get_last_file :: "collection \<Rightarrow> error + string option" where
  "get_last_file coll =
     (case coll of
        [] \<Rightarrow> Inr None
      | last_document # _ \<Rightarrow>
          (case filename last_document of
             None \<Rightarrow> Inl (KeyError ''filename'')
           | Some f \<Rightarrow> Inr (Some f)))"

text \<open>Line 265: \<open>parse_filename(last_file, logger) if last_file else 0\<close>.\<close>

definition last_number_of :: "collection \<Rightarrow> error + int" where
  "last_number_of coll =
     (case get_last_file coll of
        Inl e \<Rightarrow> Inl e
      | Inr None \<Rightarrow> Inr 0
      | Inr (Some last_file) \<Rightarrow>
          (if last_file = [] then Inr 0 else parse_filename last_file))"

text \<open>\<open>parse_filename\<close> on every listed file, stopping at the first exception.\<close>

fun parse_each :: "string list \<Rightarrow> error + (int \<times> string) list" where
  "parse_each [] = Inr []"
| "parse_each (file # files) =
     (case parse_filename file of
        Inl e \<Rightarrow> Inl e
      | Inr n \<Rightarrow>
          (case parse_each files of
             Inl e \<Rightarrow> Inl e
           | Inr rest \<Rightarrow> Inr ((n, file) # rest)))"

text \<open>
  Lines 272 to 275: the files whose number exceeds \<open>last_number\<close>, sorted by number
  (\<open>sorted\<close> is stable, and so is \<open>sort_key\<close>).
\<close>

definition files_to_download :: "int \<Rightarrow> string list \<Rightarrow> error + string list" where
  "files_to_download last_number files =
     (case parse_each files of
        Inl e \<Rightarrow> Inl e
      | Inr numbered \<Rightarrow>
          Inr (map snd (sort_key fst (filter (\<lambda>(n, file). n > last_number) numbered))))"

text \<open>
  The loop of \<open>main\<close>: \<open>fetch\<close> stands for download, decompression and parsing of one
  file. The second component lists the files given to \<open>update_database\<close>, in order.
\<close>

fun main_loop ::
  "(string \<Rightarrow> error + document list) \<Rightarrow> collection \<times> string list \<Rightarrow> string list \<Rightarrow>
   (collection \<times> string list) outcome" where
  "main_loop fetch (coll, seen) [] = Done (coll, seen)"
| "main_loop fetch (coll, seen) (file # files) =
     (case fetch file of
        Inl e \<Rightarrow> Raised e (coll, seen)
      | Inr articles \<Rightarrow>
          (case update_database coll articles of
             Raised e coll' \<Rightarrow> Raised e (coll', seen @ [file])
           | Done coll' \<Rightarrow> main_loop fetch (coll', seen @ [file]) files))"

text \<open>
  The \<open>try\<close> block of \<open>main\<close>, lines 262 to 294; its handler raises the exception
  again.
\<close>

definition main_try ::
  "(string \<Rightarrow> error + document list) \<Rightarrow> collection \<Rightarrow> string list \<Rightarrow>
   (collection \<times> string list) outcome" where
  "main_try fetch coll files =
     (case last_number_of coll of
        Inl e \<Rightarrow> Raised e (coll, [])
      | Inr last_number \<Rightarrow>
          (case files_to_download last_number files of
             Inl e \<Rightarrow> Raised e (coll, [])
           | Inr todo \<Rightarrow> main_loop fetch (coll, []) todo))"

text \<open>
  \<open>setup_logger\<close>, lines 21 to 36, starts with \<open>logging.getLogger\<close>, and
  main\_ftp.py never imports \<open>logging\<close>: the call raises NameError.
\<close>

definition setup_logger :: "error + unit" where
  "setup_logger = Inl (NameError ''logging'')"

text \<open>
  \<open>main\<close>: line 258 calls \<open>setup_logger\<close> before the \<open>try\<close>, so its exception leaves
  \<open>main\<close> at once.
\<close>

definition main ::
  "(string \<Rightarrow> error + document list) \<Rightarrow> collection \<Rightarrow> string list \<Rightarrow>
   (collection \<times> string list) outcome" where
  "main fetch coll files =
     (case setup_logger of
        Inl e \<Rightarrow> Raised e (coll, [])
      | Inr logger \<Rightarrow> main_try fetch coll files)"

section \<open>File numbers and links (main.py)\<close>

text \<open>
  \<open>re.search('n(\d+)', file_name)\<close>, first group: the leftmost \<open>n\<close> that a digit
  follows, with all the digits after it.
\<close>

fun search_first :: "string \<Rightarrow> string option" where
  "search_first [] = None"
| "search_first (c # cs) =
     (if c = CHR ''n'' \<and> takeWhile is_digit cs \<noteq> []
      then Some (takeWhile is_digit cs)
      else search_first cs)"

text \<open>\<open>get_file_number\<close>: without a match \<open>.group\<close> is called on \<open>None\<close>.\<close>

definition get_file_number :: "string \<Rightarrow> error + int" where
  "get_file_number file_name =
     (case search_first file_name of
        None \<Rightarrow> Inl AttributeError
      | Some ds \<Rightarrow> Inr (int_of_digits ds))"

text \<open>\<open>get_file_number\<close> on every link, stopping at the first exception.\<close>

fun number_each :: "string list \<Rightarrow> error + (int \<times> string) list" where
  "number_each [] = Inr []"
| "number_each (link # links) =
     (case get_file_number link of
        Inl e \<Rightarrow> Inl e
      | Inr n \<Rightarrow>
          (case number_each links of
             Inl e \<Rightarrow> Inl e
           | Inr rest \<Rightarrow> Inr ((n, link) # rest)))"

text \<open>
  Lines 48 and 49 of \<open>process_files\<close>: the links whose number exceeds
  \<open>last_number\<close>, in the order of \<open>sorted(links)\<close>, the order of the strings.
\<close>

definition sorted_links :: "int \<Rightarrow> string list \<Rightarrow> error + string list" where
  "sorted_links last_number links =
     (case number_each links of
        Inl e \<Rightarrow> Inl e
      | Inr numbered \<Rightarrow>
          Inr (sort (map snd (filter (\<lambda>(n, link). n > last_number) numbered))))"

section \<open>What the claims speak of\<close>

text \<open>
  A match of the pattern \<open>n(\d+)\.\<close> in \<open>f\<close> at position \<open>i\<close> with digits
  \<open>ds\<close>, stated on the string itself, to compare with the scan of \<open>findall_first\<close>.
\<close>

definition segment_at :: "string \<Rightarrow> nat \<Rightarrow> string \<Rightarrow> bool" where
  "segment_at f i ds =
     (ds \<noteq> [] \<and> set ds \<subseteq> set ''0123456789'' \<and>
      take (length ds + 2) (drop i f) = CHR ''n'' # ds @ [CHR ''.''])"

text \<open>
  The number a string of digits denotes, written out digit by digit: the value of a
  digit is its place in \<open>0123456789\<close>, and a digit with \<open>k\<close> digits after it counts
  \<open>10 ^ k\<close> times.
\<close>

definition digit_index :: "char \<Rightarrow> nat" where
  "digit_index c = length (takeWhile (\<lambda>x. x \<noteq> c) ''0123456789'')"

fun decimal :: "string \<Rightarrow> int" where
  "decimal [] = 0"
| "decimal (c # cs) = int (digit_index c) * 10 ^ length cs + decimal cs"

text \<open>The collection an outcome leaves behind, whether the call returned or raised.\<close>

fun store_of :: "'s outcome \<Rightarrow> 's" where
  "store_of (Done s) = s"
| "store_of (Raised e s) = s"

text \<open>
  What the second loop does to one flagged document: every entry of its
  \<open>references\<close> goes through \<open>resolve_ref\<close> and the flag is cleared.
\<close>

definition resolved :: "collection \<Rightarrow> document \<Rightarrow> document" where
  "resolved c d = d\<lparr>references := map_option (map (resolve_ref c)) (references d),
                     updated := Some False\<rparr>"

text \<open>
  MongoDB keeps \<open>_id\<close> unique and present in every stored document.
\<close>

definition ids_ok :: "collection \<Rightarrow> bool" where
  "ids_ok coll = (distinct (map doc_id coll) \<and> None \<notin> set (map doc_id coll))"

text \<open>
  The invariant behind the citation claim. A document stored under a string key
  carries that string as its \<open>pmid\<close>; an \<open>idArticle\<close> is either \<open>None\<close> or the
  key made of the entry's own \<open>pmid\<close>, and a document with that key is stored.
\<close>

definition key_ok :: "document \<Rightarrow> bool" where
  "key_ok d = (case doc_id d of Some (StrId x) \<Rightarrow> pmid d = Some x | _ \<Rightarrow> True)"

definition refs_of :: "document \<Rightarrow> reference_doc list" where
  "refs_of d = (case references d of None \<Rightarrow> [] | Some rs \<Rightarrow> rs)"

definition ref_ok :: "collection \<Rightarrow> reference_doc \<Rightarrow> bool" where
  "ref_ok coll r =
     (case idArticle r of
        None \<Rightarrow> True
      | Some k \<Rightarrow> k = StrId (ref_pmid r) \<and> find_one_id coll k \<noteq> None)"

definition store_inv :: "collection \<Rightarrow> bool" where
  "store_inv coll =
     (list_all key_ok coll \<and> list_all (\<lambda>d. list_all (ref_ok coll) (refs_of d)) coll)"

section \<open>Example data\<close>

abbreviation article_1 :: document where
  "article_1 \<equiv> \<lparr>doc_id = None, filename = None, pmid = Some ''1'', reference = Some ''7;7'',
     updated = None, references = None, body = [(''title'', ''On merging'')]\<rparr>"

abbreviation article_3 :: document where
  "article_3 \<equiv> \<lparr>doc_id = None, filename = None, pmid = Some ''3'', reference = Some '''',
     updated = None, references = None, body = []\<rparr>"

abbreviation article_no_pmid :: document where
  "article_no_pmid \<equiv> \<lparr>doc_id = None, filename = None, pmid = None, reference = Some ''1'',
     updated = None, references = None, body = []\<rparr>"

abbreviation stored_1 :: "nat \<Rightarrow> bool \<Rightarrow> document" where
  "stored_1 n flag \<equiv> \<lparr>doc_id = Some (ObjectId n), filename = None, pmid = Some ''1'',
     reference = Some ''7;7'', updated = Some flag,
     references = Some [\<lparr>ref_pmid = ''7'', idArticle = None\<rparr>],
     body = [(''title'', ''On merging'')]\<rparr>"

abbreviation parsed :: "string \<Rightarrow> string \<Rightarrow> document" where
  "parsed p r \<equiv> \<lparr>doc_id = None, filename = None, pmid = Some p, reference = Some r,
     updated = None, references = None, body = []\<rparr>"

abbreviation held ::
  "nat \<Rightarrow> string \<Rightarrow> string \<Rightarrow> bool \<Rightarrow> reference_doc list \<Rightarrow> document" where
  "held n p r flag refs \<equiv> \<lparr>doc_id = Some (ObjectId n), filename = None, pmid = Some p,
     reference = Some r, updated = Some flag, references = Some refs, body = []\<rparr>"

abbreviation file_doc :: "nat \<Rightarrow> string \<Rightarrow> document" where
  "file_doc n f \<equiv> \<lparr>doc_id = Some (ObjectId n), filename = Some f, pmid = None,
     reference = None, updated = None, references = None, body = []\<rparr>"

abbreviation citing :: "string \<Rightarrow> bool \<Rightarrow> reference_doc list \<Rightarrow> document" where
  "citing p flag refs \<equiv> \<lparr>doc_id = Some (StrId p), filename = None, pmid = Some p,
     reference = None, updated = Some flag, references = Some refs, body = []\<rparr>"

abbreviation cite :: "string \<Rightarrow> ident option \<Rightarrow> reference_doc" where
  "cite p k \<equiv> \<lparr>ref_pmid = p, idArticle = k\<rparr>"

abbreviation article_keyed :: "string \<Rightarrow> string \<Rightarrow> document" where
  "article_keyed p r \<equiv> \<lparr>doc_id = Some (StrId p), filename = None, pmid = Some p,
     reference = Some r, updated = None, references = None, body = []\<rparr>"

section \<open>File names and the selection of files\<close>

lemma segment_at_alt:
  "segment_at f i ds =
     (ds \<noteq> [] \<and> list_all is_digit ds \<and>
      take (length ds + 2) (drop i f) = CHR ''n'' # ds @ [CHR ''.''])"
proof -
  have "(set ds \<subseteq> set ''0123456789'') = list_all is_digit ds"
    unfolding list_all_iff is_digit_def by blast
  then show ?thesis unfolding segment_at_def by simp
qed

lemma dot_not_digit: "\<not> is_digit CHR ''.''"
  by (simp add: is_digit_def)

lemma segment_at_Suc: "segment_at (c # cs) (Suc i) ds = segment_at cs i ds"
  by (simp add: segment_at_alt)

lemma take_eq_appendD:
  "take (length ys) xs = ys \<Longrightarrow> \<exists>zs. xs = ys @ zs"
  by (metis append_take_drop_id)

lemma segment_at_0:
  "segment_at (c # cs) 0 ds =
     (c = CHR ''n'' \<and> ds \<noteq> [] \<and> ds = takeWhile is_digit cs \<and>
      (case dropWhile is_digit cs of [] \<Rightarrow> False | x # _ \<Rightarrow> x = CHR ''.''))"
proof
  assume a: "segment_at (c # cs) 0 ds"
  then have ds: "ds \<noteq> []" "list_all is_digit ds"
    and t: "take (length ds + 2) (c # cs) = CHR ''n'' # ds @ [CHR ''.'']"
    by (simp_all add: segment_at_alt)
  from t have c: "c = CHR ''n''" and t': "take (length (ds @ [CHR ''.''])) cs = ds @ [CHR ''.'']"
    by simp_all
  from take_eq_appendD [OF t'] obtain post where cs: "cs = ds @ CHR ''.'' # post"
    by auto
  have tw: "takeWhile is_digit cs = ds"
    using ds(2) unfolding cs by (simp add: takeWhile_tail dot_not_digit list_all_iff)
  have dw: "dropWhile is_digit cs = CHR ''.'' # post"
    using ds(2) unfolding cs by (simp add: dropWhile_append3 dot_not_digit list_all_iff)
  show "c = CHR ''n'' \<and> ds \<noteq> [] \<and> ds = takeWhile is_digit cs \<and>
      (case dropWhile is_digit cs of [] \<Rightarrow> False | x # _ \<Rightarrow> x = CHR ''.'')"
    using c ds(1) tw dw by simp
next
  assume a: "c = CHR ''n'' \<and> ds \<noteq> [] \<and> ds = takeWhile is_digit cs \<and>
      (case dropWhile is_digit cs of [] \<Rightarrow> False | x # _ \<Rightarrow> x = CHR ''.'')"
  then obtain post where dw: "dropWhile is_digit cs = CHR ''.'' # post"
    by (auto split: list.splits)
  have "cs = takeWhile is_digit cs @ dropWhile is_digit cs" by simp
  moreover have "ds = takeWhile is_digit cs" using a by blast
  ultimately have cs: "cs = ds @ CHR ''.'' # post" using dw by metis
  have "list_all is_digit (takeWhile is_digit cs)"
    unfolding list_all_iff using set_takeWhileD by fast
  moreover have dseq: "ds = takeWhile is_digit cs" using a by blast
  ultimately have la: "list_all is_digit ds" by blast
  have ne: "ds \<noteq> []" and c: "c = CHR ''n''" using a by blast+
  have "take (length ds + 2) (c # ds @ CHR ''.'' # post) = CHR ''n'' # ds @ [CHR ''.'']"
    using c by simp
  then have "take (length ds + 2) (drop 0 (c # cs)) = CHR ''n'' # ds @ [CHR ''.'']"
    using cs by simp
  then show "segment_at (c # cs) 0 ds"
    using la ne unfolding segment_at_alt by blast
qed

lemma findall_first_None:
  "(findall_first f = None) = (\<forall>i ds. \<not> segment_at f i ds)"
proof (induction f)
  case Nil
  show ?case by (simp add: segment_at_alt)
next
  case (Cons c cs)
  have split: "(\<forall>i ds. \<not> segment_at (c # cs) i ds) =
        ((\<forall>ds. \<not> segment_at (c # cs) 0 ds) \<and> (\<forall>i ds. \<not> segment_at cs i ds))"
    by (metis segment_at_Suc not0_implies_Suc)
  show ?case
    unfolding split using Cons.IH by (auto simp: segment_at_0)
qed

lemma findall_first_Some:
  "(findall_first f = Some ds) =
     (\<exists>i. segment_at f i ds \<and> (\<forall>j ds'. segment_at f j ds' \<longrightarrow> i \<le> j))"
proof (induction f)
  case Nil
  show ?case by (simp add: segment_at_alt)
next
  case (Cons c cs)
  show ?case
  proof (cases "\<exists>ds0. segment_at (c # cs) 0 ds0")
    case True
    then obtain ds0 where s0: "segment_at (c # cs) 0 ds0" by blast
    then have f: "findall_first (c # cs) = Some ds0"
      by (auto simp: segment_at_0)
    have uniq: "\<And>ds'. segment_at (c # cs) 0 ds' \<Longrightarrow> ds' = ds0"
      using s0 by (simp add: segment_at_0)
    show ?thesis
    proof
      assume "findall_first (c # cs) = Some ds"
      then have "ds = ds0" using f by simp
      then show "\<exists>i. segment_at (c # cs) i ds \<and> (\<forall>j ds'. segment_at (c # cs) j ds' \<longrightarrow> i \<le> j)"
        using s0 by (intro exI [of _ 0]) simp
    next
      assume "\<exists>i. segment_at (c # cs) i ds \<and> (\<forall>j ds'. segment_at (c # cs) j ds' \<longrightarrow> i \<le> j)"
      then obtain i where i: "segment_at (c # cs) i ds" "\<forall>j ds'. segment_at (c # cs) j ds' \<longrightarrow> i \<le> j"
        by blast
      from i(2) s0 have "i = 0" by auto
      with i(1) uniq have "ds = ds0" by simp
      then show "findall_first (c # cs) = Some ds" using f by simp
    qed
  next
    case False
    then have f: "findall_first (c # cs) = findall_first cs"
      by (auto simp: segment_at_0)
    have shift: "\<And>j ds'. segment_at (c # cs) j ds' = (\<exists>j'. j = Suc j' \<and> segment_at cs j' ds')"
      using False by (metis segment_at_Suc not0_implies_Suc)
    have "(\<exists>i. segment_at (c # cs) i ds \<and> (\<forall>j ds'. segment_at (c # cs) j ds' \<longrightarrow> i \<le> j)) =
          (\<exists>i. segment_at cs i ds \<and> (\<forall>j ds'. segment_at cs j ds' \<longrightarrow> i \<le> j))"
      unfolding shift by (auto; (metis Suc_le_mono)?)
    then show ?thesis using f Cons.IH by simp
  qed
qed


lemma parse_filename_Inl: "parse_filename f = Inl e \<Longrightarrow> e = IndexError"
  by (auto simp: parse_filename_def split: option.splits)

lemma parse_each_Inl: "parse_each files = Inl e \<Longrightarrow> e = IndexError"
  by (induction files arbitrary: e) (auto split: sum.splits dest: parse_filename_Inl)

lemma parse_each_fails:
  "f \<in> set files \<Longrightarrow> parse_filename f = Inl e \<Longrightarrow> parse_each files = Inl IndexError"
proof (induction files)
  case Nil
  then show ?case by simp
next
  case (Cons g gs)
  show ?case
  proof (cases "parse_filename g")
    case (Inl e')
    then show ?thesis using parse_filename_Inl [OF Inl] by simp
  next
    case (Inr n)
    then have "f \<in> set gs" using Cons.prems by auto
    then have "parse_each gs = Inl IndexError" using Cons by blast
    then show ?thesis using Inr by simp
  qed
qed

lemma parse_each_total:
  "\<forall>f \<in> set files. findall_first f \<noteq> None \<Longrightarrow> \<exists>numbered. parse_each files = Inr numbered"
  by (induction files) (auto simp: parse_filename_def split: option.splits)

lemma parse_each_Inr:
  "parse_each files = Inr numbered \<Longrightarrow>
   map snd numbered = files \<and> (\<forall>(n, f) \<in> set numbered. parse_filename f = Inr n)"
  by (induction files arbitrary: numbered) (auto split: sum.splits)

lemma parse_each_filter:
  "parse_each files = Inr numbered \<Longrightarrow>
   map snd (filter (\<lambda>(n, file). N < n) numbered) =
   filter (\<lambda>f. \<exists>n. parse_filename f = Inr n \<and> N < n) files"
  by (induction files arbitrary: numbered) (auto split: sum.splits)

text \<open>
  The loop of \<open>int_of_digits\<close> computes the number the digits denote.
\<close>

lemma digit_val_index: "is_digit c \<Longrightarrow> digit_val c = int (digit_index c)"
proof -
  assume "is_digit c"
  then have "c = CHR ''0'' \<or> c = CHR ''1'' \<or> c = CHR ''2'' \<or> c = CHR ''3'' \<or> c = CHR ''4'' \<or>
             c = CHR ''5'' \<or> c = CHR ''6'' \<or> c = CHR ''7'' \<or> c = CHR ''8'' \<or> c = CHR ''9''"
    by (simp add: is_digit_def)
  then show ?thesis
    by (elim disjE) (simp_all add: digit_val_def digit_index_def)
qed

lemma int_of_digits_snoc: "int_of_digits (ds @ [c]) = 10 * int_of_digits ds + digit_val c"
  by (simp add: int_of_digits_def)

lemma decimal_snoc: "decimal (ds @ [c]) = 10 * decimal ds + int (digit_index c)"
proof (induction ds)
  case Nil
  show ?case by simp
next
  case (Cons a ds)
  have "decimal ((a # ds) @ [c]) = int (digit_index a) * 10 ^ Suc (length ds) + decimal (ds @ [c])"
    by simp
  also have "\<dots> = int (digit_index a) * 10 ^ Suc (length ds) + (10 * decimal ds + int (digit_index c))"
    using Cons.IH by simp
  also have "\<dots> = 10 * (int (digit_index a) * 10 ^ length ds + decimal ds) + int (digit_index c)"
    by (simp add: distrib_left)
  finally show ?case by simp
qed

lemma int_of_digits_decimal: "list_all is_digit ds \<Longrightarrow> int_of_digits ds = decimal ds"
proof (induction ds rule: rev_induct)
  case Nil
  show ?case by (simp add: int_of_digits_def)
next
  case (snoc c ds)
  then show ?case
    by (simp add: int_of_digits_snoc decimal_snoc digit_val_index)
qed

text \<open>
  Lines 272 to 275 of main\_ftp.py: when every listed name parses, the files to
  download are exactly the listed files whose number is greater than \<open>N\<close> (each as
  often as it is listed), and their numbers ascend.
\<close>

lemma files_to_download_selects_sorted:
  assumes ok: "\<forall>f \<in> set files. findall_first f \<noteq> None"
  shows "\<exists>todo ns. files_to_download N files = Inr todo \<and>
           mset todo = filter_mset (\<lambda>f. \<exists>n. parse_filename f = Inr n \<and> N < n) (mset files) \<and>
           map parse_filename todo = map Inr ns \<and> sorted ns"
proof -
  from parse_each_total [OF ok] obtain numbered where pe: "parse_each files = Inr numbered"
    by blast
  define sel where "sel = sort_key fst (filter (\<lambda>(n, file). N < n) numbered)"
  define todo where "todo = map snd sel"
  have ftd: "files_to_download N files = Inr todo"
    by (simp add: files_to_download_def pe todo_def sel_def)
  have "mset todo = mset (map snd (filter (\<lambda>(n, file). N < n) numbered))"
    by (simp add: todo_def sel_def)
  then have m: "mset todo =
      filter_mset (\<lambda>f. \<exists>n. parse_filename f = Inr n \<and> N < n) (mset files)"
    by (simp add: parse_each_filter [OF pe])
  have "\<forall>(n, f) \<in> set sel. parse_filename f = Inr n"
    using parse_each_Inr [OF pe] by (auto simp: sel_def)
  then have p: "map parse_filename todo = map Inr (map fst sel)"
    by (auto simp: todo_def)
  have srt: "sorted (map fst sel)" by (simp add: sel_def)
  show ?thesis using ftd m p srt by blast
qed

text \<open>
  Lines 48 and 49 of main.py keep the links whose number is greater than \<open>N\<close> as
  well, but order them as strings: \<open>...n1000...\<close> comes before \<open>...n999...\<close>. Its
  pattern asks for no dot after the digits.
\<close>

lemma number_each_total:
  "\<forall>l \<in> set links. search_first l \<noteq> None \<Longrightarrow> \<exists>numbered. number_each links = Inr numbered"
  by (induction links) (auto simp: get_file_number_def split: option.splits)

lemma number_each_filter:
  "number_each links = Inr numbered \<Longrightarrow>
   map snd (filter (\<lambda>(n, link). N < n) numbered) =
   filter (\<lambda>l. \<exists>n. get_file_number l = Inr n \<and> N < n) links"
  by (induction links arbitrary: numbered) (auto split: sum.splits)

lemma sorted_links_selects_sorted:
  assumes "\<forall>l \<in> set links. search_first l \<noteq> None"
  shows "\<exists>todo. sorted_links N links = Inr todo \<and> sorted todo \<and>
           mset todo = filter_mset (\<lambda>l. \<exists>n. get_file_number l = Inr n \<and> N < n) (mset links)"
proof -
  from number_each_total [OF assms] obtain numbered where ne: "number_each links = Inr numbered"
    by blast
  show ?thesis
    by (simp add: sorted_links_def ne number_each_filter [OF ne])
qed

lemma sorted_links_by_text:
  "sorted_links 0
     [''https://ftp.ncbi.nlm.nih.gov/pubmed/updatefiles/pubmed23n999.xml.gz'',
      ''https://ftp.ncbi.nlm.nih.gov/pubmed/updatefiles/pubmed23n1000.xml.gz''] =
   Inr [''https://ftp.ncbi.nlm.nih.gov/pubmed/updatefiles/pubmed23n1000.xml.gz'',
        ''https://ftp.ncbi.nlm.nih.gov/pubmed/updatefiles/pubmed23n999.xml.gz''] \<and>
   map get_file_number
     [''https://ftp.ncbi.nlm.nih.gov/pubmed/updatefiles/pubmed23n1000.xml.gz'',
      ''https://ftp.ncbi.nlm.nih.gov/pubmed/updatefiles/pubmed23n999.xml.gz''] =
   [Inr 1000, Inr 999]"
  by code_simp

lemma get_file_number_needs_no_dot:
  "get_file_number ''pubmed23n12'' = Inr 12 \<and> parse_filename ''pubmed23n12'' = Inl IndexError"
  by (simp add: get_file_number_def parse_filename_def is_digit_def int_of_digits_def
      digit_val_def)

text \<open>
  C8. The code at the failing input: \<open>main\<close> raises NameError in \<open>setup_logger\<close>
  before it reads the last number or lists a file, whatever the collection and the
  listing are, so the file 5 that lines 272 to 275 would select on an empty
  collection is never processed.
\<close>

theorem run_stops_at_setup_logger:
  "main fetch coll files = Raised (NameError ''logging'') (coll, []) \<and>
   last_number_of [] = Inr 0 \<and>
   files_to_download 0 [''pubmed23n0005.xml.gz''] = Inr [''pubmed23n0005.xml.gz''] \<and>
   main (\<lambda>_. Inr []) [] [''pubmed23n0005.xml.gz''] = Raised (NameError ''logging'') ([], [])"
  by (simp add: main_def setup_logger_def last_number_of_def get_last_file_def
      files_to_download_def parse_filename_def is_digit_def int_of_digits_def digit_val_def)

text \<open>
  C10. \<open>parse_filename\<close> returns the number that the digits of the leftmost segment
  \<open>n<digits>.\<close> of the name denote, and raises IndexError exactly when the name has
  no such segment. One listed name without a segment makes the filter of lines 272
  and 273 raise, so the \<open>try\<close> block of \<open>main\<close> raises with the collection unchanged
  and no file handed to \<open>update_database\<close>; \<open>main\<close> itself has by then already
  raised NameError, with the same effect.
\<close>

theorem parse_filename_gates_run:
  "((parse_filename f = Inr k) =
      (\<exists>i ds. segment_at f i ds \<and> (\<forall>j ds'. segment_at f j ds' \<longrightarrow> i \<le> j) \<and>
               k = decimal ds)) \<and>
   ((parse_filename f = Inl e) = (e = IndexError \<and> (\<forall>i ds. \<not> segment_at f i ds))) \<and>
   (f \<in> set files \<and> (\<forall>i ds. \<not> segment_at f i ds) \<longrightarrow>
      files_to_download N files = Inl IndexError \<and>
      main_try fetch coll files =
        Raised (case last_number_of coll of Inl e' \<Rightarrow> e' | Inr _ \<Rightarrow> IndexError) (coll, []) \<and>
      main fetch coll files = Raised (NameError ''logging'') (coll, []))"
proof (intro conjI impI)
  show "(parse_filename f = Inr k) =
      (\<exists>i ds. segment_at f i ds \<and> (\<forall>j ds'. segment_at f j ds' \<longrightarrow> i \<le> j) \<and>
               k = decimal ds)"
  proof -
    have "(parse_filename f = Inr k) = (\<exists>ds. findall_first f = Some ds \<and> k = int_of_digits ds)"
      by (auto simp: parse_filename_def split: option.splits)
    also have "\<dots> = (\<exists>ds. (\<exists>i. segment_at f i ds \<and> (\<forall>j ds'. segment_at f j ds' \<longrightarrow> i \<le> j)) \<and>
                          k = int_of_digits ds)"
      unfolding findall_first_Some ..
    also have "\<dots> = (\<exists>ds. (\<exists>i. segment_at f i ds \<and> (\<forall>j ds'. segment_at f j ds' \<longrightarrow> i \<le> j)) \<and>
                          k = decimal ds)"
      using int_of_digits_decimal by (metis segment_at_alt)
    finally show ?thesis by blast
  qed
next
  show "(parse_filename f = Inl e) = (e = IndexError \<and> (\<forall>i ds. \<not> segment_at f i ds))"
    using findall_first_None [of f]
    by (auto simp: parse_filename_def split: option.splits)
next
  assume a: "f \<in> set files \<and> (\<forall>i ds. \<not> segment_at f i ds)"
  then have "parse_filename f = Inl IndexError"
    using findall_first_None [of f] by (simp add: parse_filename_def)
  then have "parse_each files = Inl IndexError" using a parse_each_fails by blast
  then have ftd: "\<And>N. files_to_download N files = Inl IndexError"
    by (simp add: files_to_download_def)
  show "files_to_download N files = Inl IndexError" by (rule ftd)
  show "main_try fetch coll files =
        Raised (case last_number_of coll of Inl e' \<Rightarrow> e' | Inr _ \<Rightarrow> IndexError) (coll, [])"
    using ftd by (simp add: main_try_def split: sum.splits)
  show "main fetch coll files = Raised (NameError ''logging'') (coll, [])"
    by (simp add: main_def setup_logger_def)
qed

theorem parse_filename_gates_run_witness:
  "parse_filename ''pubmed23n0007.xml.gz'' = Inr 7 \<and>
   segment_at ''pubmed23n0007.xml.gz'' 8 ''0007'' \<and> decimal ''0007'' = 7 \<and>
   (\<exists>i ds. segment_at ''pubmed23n0007.xml.gz'' i ds \<and> 7 = decimal ds) \<and>
   ''README.txt'' \<in> set [''pubmed23n0007.xml.gz'', ''README.txt''] \<and>
   (\<forall>i ds. \<not> segment_at ''README.txt'' i ds) \<and>
   files_to_download 0 [''pubmed23n0007.xml.gz'', ''README.txt''] = Inl IndexError \<and>
   main_try (\<lambda>_. Inr []) [] [''pubmed23n0007.xml.gz'', ''README.txt''] =
     Raised IndexError ([], [])"
proof -
  have r: "parse_filename ''pubmed23n0007.xml.gz'' = Inr 7"
    by (simp add: parse_filename_def is_digit_def int_of_digits_def digit_val_def)
  have s: "segment_at ''pubmed23n0007.xml.gz'' 8 ''0007''"
    by (simp add: segment_at_alt is_digit_def)
  have d: "decimal ''0007'' = 7" by (simp add: digit_index_def)
  from parse_filename_gates_run [of "''pubmed23n0007.xml.gz''" 7] r
  have ex: "\<exists>i ds. segment_at ''pubmed23n0007.xml.gz'' i ds \<and> 7 = decimal ds" by blast
  have p: "parse_filename ''README.txt'' = Inl IndexError"
    by (simp add: parse_filename_def is_digit_def)
  note inst = parse_filename_gates_run
    [of "''README.txt''" 0 IndexError "[''pubmed23n0007.xml.gz'', ''README.txt'']" 0
        "\<lambda>_. Inr []" "[]"]
  from inst p have no: "\<forall>i ds. \<not> segment_at ''README.txt'' i ds" by blast
  have mem: "''README.txt'' \<in> set [''pubmed23n0007.xml.gz'', ''README.txt'']" by simp
  from inst no mem have
    "files_to_download 0 [''pubmed23n0007.xml.gz'', ''README.txt''] = Inl IndexError \<and>
     main_try (\<lambda>_. Inr []) [] [''pubmed23n0007.xml.gz'', ''README.txt''] =
       Raised (case last_number_of [] of Inl e' \<Rightarrow> e' | Inr _ \<Rightarrow> IndexError) ([], [])"
    by blast
  then have "files_to_download 0 [''pubmed23n0007.xml.gz'', ''README.txt''] = Inl IndexError \<and>
     main_try (\<lambda>_. Inr []) [] [''pubmed23n0007.xml.gz'', ''README.txt''] =
       Raised IndexError ([], [])"
    by (simp add: last_number_of_def get_last_file_def)
  with r s d ex no mem show ?thesis by blast
qed

section \<open>Evaluating the code on examples\<close>

lemmas run_defs = update_database_def merge_article_def find_one_id_def insert_one_def
  fresh_id_def reference_docs_def resolve_all_def resolve_ref_def update_set_def
lemmas parse_defs = parse_filename_def is_digit_def int_of_digits_def digit_val_def
  last_number_of_def get_last_file_def files_to_download_def

section \<open>Lookups and updates by \<open>_id\<close>\<close>

lemma find_one_id_SomeD:
  "find_one_id coll k = Some d \<Longrightarrow> d \<in> set coll \<and> doc_id d = Some k"
  unfolding find_one_id_def by (auto simp: find_Some_iff)

lemma find_one_id_None_iff:
  "(find_one_id coll k = None) = (Some k \<notin> set (map doc_id coll))"
  unfolding find_one_id_def find_None_iff by (metis (mono_tags, lifting) image_iff list.set_map)

lemma resolve_ref_ids:
  "resolve_ref coll r =
     (if Some (StrId (ref_pmid r)) \<in> set (map doc_id coll)
      then r\<lparr>idArticle := Some (StrId (ref_pmid r))\<rparr> else r)"
proof (cases "find_one_id coll (StrId (ref_pmid r))")
  case None
  then show ?thesis
    using find_one_id_None_iff [of coll "StrId (ref_pmid r)"] by (simp add: resolve_ref_def)
next
  case (Some t)
  then have "doc_id t = Some (StrId (ref_pmid r))" "Some (StrId (ref_pmid r)) \<in> set (map doc_id coll)"
    using find_one_id_SomeD [OF Some] by force+
  then show ?thesis using Some by (simp add: resolve_ref_def)
qed

lemma resolve_ref_cong:
  "set (map doc_id c) = set (map doc_id c') \<Longrightarrow> resolve_ref c = resolve_ref c'"
  by (rule ext) (simp add: resolve_ref_ids)

lemma ids_update_one:
  "(\<And>d. doc_id (f d) = doc_id d) \<Longrightarrow> map doc_id (update_one k f coll) = map doc_id coll"
  by (induction coll) auto

lemma update_one_distinct:
  "distinct (map doc_id coll) \<Longrightarrow>
   update_one k f coll = map (\<lambda>d. if doc_id d = Some k then f d else d) coll"
proof (induction coll)
  case Nil
  show ?case by simp
next
  case (Cons d ds)
  show ?case
  proof (cases "doc_id d = Some k")
    case True
    then have "\<forall>x \<in> set ds. doc_id x \<noteq> Some k" using Cons.prems by force
    then have "map (\<lambda>d. if doc_id d = Some k then f d else d) ds = ds"
      by (simp add: map_idI)
    then show ?thesis using True by simp
  next
    case False
    then show ?thesis using Cons by simp
  qed
qed

lemma doc_id_resolved: "doc_id (resolved c d) = doc_id d"
  by (simp add: resolved_def)

lemma resolve_loop_spec:
  assumes "distinct (map doc_id c)" and "set arts \<subseteq> set c" and "distinct (map doc_id arts)"
    and "\<forall>a \<in> set arts. references a \<noteq> None \<and> doc_id a \<noteq> None"
  shows "resolve_loop c arts =
           Done (map (\<lambda>d. if doc_id d \<in> set (map doc_id arts) then resolved c d else d) c)"
  using assms
proof (induction arts arbitrary: c)
  case Nil
  show ?case by simp
next
  case (Cons a rest)
  from Cons.prems obtain refs k where refs: "references a = Some refs" and k: "doc_id a = Some k"
    by auto
  let ?f = "\<lambda>d. d\<lparr>references := Some (map (resolve_ref c) refs), updated := Some False\<rparr>"
  let ?g = "\<lambda>d. if doc_id d = Some k then resolved c d else d"
  define c' where "c' = update_one k ?f c"
  have inj: "inj_on doc_id (set c)" using Cons.prems(1) by (simp add: distinct_map)
  have a_in: "a \<in> set c" using Cons.prems(2) by simp
  have only: "\<And>d. d \<in> set c \<Longrightarrow> doc_id d = Some k \<Longrightarrow> d = a"
    using inj a_in k by (metis inj_onD)
  have "c' = map (\<lambda>d. if doc_id d = Some k then ?f d else d) c"
    unfolding c'_def by (rule update_one_distinct [OF Cons.prems(1)])
  also have "\<dots> = map ?g c"
    by (rule map_cong) (auto simp: resolved_def refs dest: only)
  finally have c': "c' = map ?g c" .
  have ids: "map doc_id c' = map doc_id c"
    unfolding c' by (simp add: resolved_def comp_def if_distrib cong: if_cong)
  have notin: "Some k \<notin> set (map doc_id rest)" using Cons.prems(3) k by simp
  have sub: "set rest \<subseteq> set c'"
  proof
    fix b assume b: "b \<in> set rest"
    then have "b \<in> set c" using Cons.prems(2) by auto
    moreover have "doc_id b \<noteq> Some k" using b notin by force
    ultimately have "?g b \<in> set c'" "?g b = b" unfolding c' by auto
    then show "b \<in> set c'" by simp
  qed
  have IH: "resolve_loop c' rest =
      Done (map (\<lambda>d. if doc_id d \<in> set (map doc_id rest) then resolved c' d else d) c')"
    using Cons.prems by (intro Cons.IH) (simp_all add: ids sub)
  have rc: "resolved c' = resolved c"
    using resolve_ref_cong [of c' c] ids by (intro ext) (simp add: resolved_def)
  have step: "resolve_loop c (a # rest) = resolve_loop c' rest"
    by (simp add: refs k c'_def)
  have comp: "map (\<lambda>d. if doc_id d \<in> set (map doc_id rest) then resolved c d else d) (map ?g c) =
        map (\<lambda>d. if doc_id d \<in> set (map doc_id (a # rest)) then resolved c d else d) c"
    using notin by (auto simp: k doc_id_resolved)
  have "resolve_loop c (a # rest) =
      Done (map (\<lambda>d. if doc_id d \<in> set (map doc_id rest) then resolved c d else d) c')"
    using step IH rc by simp
  also have "\<dots> =
      Done (map (\<lambda>d. if doc_id d \<in> set (map doc_id rest) then resolved c d else d) (map ?g c))"
    using c' by simp
  finally show ?case using comp by simp
qed

section \<open>The second loop: resolving references\<close>

text \<open>
  On a collection with unique \<open>_id\<close>s, the second loop of \<open>update_database\<close>
  returns and changes exactly the documents flagged \<open>updated\<close>: each entry of their
  \<open>references\<close> whose \<open>pmid\<close> is the \<open>_id\<close> of a stored document gets that
  document's \<open>_id\<close> as \<open>idArticle\<close>, every other entry is kept as it is, and the
  flag becomes \<open>False\<close>. A flagged document without \<open>references\<close> would raise
  KeyError, hence the second hypothesis.
\<close>

lemma resolve_all_by_id:
  assumes "distinct (map doc_id coll)"
    and "\<forall>d \<in> set coll. updated d = Some True \<longrightarrow> references d \<noteq> None \<and> doc_id d \<noteq> None"
  shows "resolve_all coll =
     Done (map (\<lambda>d. if updated d = Some True
                     then d\<lparr>references :=
                              map_option (map (\<lambda>r.
                                case find_one_id coll (StrId (ref_pmid r)) of
                                  Some t \<Rightarrow> r\<lparr>idArticle := doc_id t\<rparr>
                                | None \<Rightarrow> r)) (references d),
                            updated := Some False\<rparr>
                     else d) coll)"
proof -
  let ?arts = "filter (\<lambda>d. updated d = Some True) coll"
  have inj: "inj_on doc_id (set coll)" using assms(1) by (simp add: distinct_map)
  have "resolve_loop coll ?arts =
      Done (map (\<lambda>d. if doc_id d \<in> set (map doc_id ?arts) then resolved coll d else d) coll)"
    using assms by (intro resolve_loop_spec) (auto simp: distinct_map_filter)
  moreover have "map (\<lambda>d. if doc_id d \<in> set (map doc_id ?arts) then resolved coll d else d) coll =
      map (\<lambda>d. if updated d = Some True then resolved coll d else d) coll"
  proof (rule map_cong [OF refl])
    fix d assume d: "d \<in> set coll"
    have "(doc_id d \<in> set (map doc_id ?arts)) = (updated d = Some True)"
      using d inj by (auto dest: inj_onD)
    then show "(if doc_id d \<in> set (map doc_id ?arts) then resolved coll d else d) =
               (if updated d = Some True then resolved coll d else d)" by simp
  qed
  moreover have "resolved coll = (\<lambda>d. d\<lparr>references :=
                              map_option (map (\<lambda>r.
                                case find_one_id coll (StrId (ref_pmid r)) of
                                  Some t \<Rightarrow> r\<lparr>idArticle := doc_id t\<rparr>
                                | None \<Rightarrow> r)) (references d),
                            updated := Some False\<rparr>)"
    unfolding resolved_def resolve_ref_def by simp
  ultimately show ?thesis by (simp add: resolve_all_def)
qed

text \<open>
  C3. The code at the failing input: two articles as the parser returns them, the
  first citing the second. Both are stored under generated ObjectIds, the lookup of
  line 237 asks for \<open>_id = '2'\<close> and finds nothing, so the citation stays
  unresolved although its target is in the collection; the flag is cleared.
\<close>

theorem stored_target_stays_unresolved:
  "update_database [] [parsed ''1'' ''2'', parsed ''2'' ''''] =
     Done [held 1 ''1'' ''2'' False [cite ''2'' None],
           held 2 ''2'' '''' False [cite '''' None]]"
  by (simp add: run_defs)

section \<open>The first loop: merging articles\<close>

lemma merge_article_new:
  assumes "pmid article = Some p" and "reference article = Some r"
    and "find_one_id coll (StrId p) = None"
    and "doc_id article = None \<or> (\<exists>k. doc_id article = Some k \<and> find_one_id coll k = None)"
  shows "\<exists>d rs. merge_article coll article = Done (coll @ [d]) \<and>
           updated d = Some True \<and> references d = Some rs \<and>
           map ref_pmid rs = remdups (split CHR '';'' r) \<and>
           list_all (\<lambda>x. idArticle x = None) rs \<and>
           pmid d = Some p \<and> reference d = Some r \<and> body d = body article \<and>
           filename d = filename article \<and>
           doc_id d = (case doc_id article of None \<Rightarrow> Some (fresh_id coll) | Some k \<Rightarrow> Some k)"
  using assms
  by (auto simp: merge_article_def insert_one_def reference_docs_def list_all_iff comp_def)

lemma merge_all_append:
  "merge_all coll (xs @ ys) =
     (case merge_all coll xs of Done c \<Rightarrow> merge_all c ys | Raised e c \<Rightarrow> Raised e c)"
  by (induction xs arbitrary: coll) (auto split: outcome.splits)

text \<open>
  The branch of line 227: when the lookup by \<open>_id\<close> finds a stored document and
  the set of the PMIDs in its \<open>references\<close> equals the set of the PMIDs in the
  article's \<open>reference\<close> string, the loop body writes nothing.
\<close>

lemma merge_article_unchanged:
  assumes "pmid article = Some p" and "reference article = Some r"
    and "find_one_id coll (StrId p) = Some ex"
    and "old_references ex = set (split CHR '';'' r)"
  shows "merge_article coll article = Done coll"
  using assms by (simp add: merge_article_def)

text \<open>
  C5. The code at the failing input: the collection holds the record the code
  itself stored for PMID \<open>1\<close>, and the same article comes again with the same set
  of cited PMIDs. The lookup of line 213 misses the stored record, and the article
  is inserted as a new, flagged document: a write, where the claim has none.
\<close>

theorem republished_unchanged_record_is_inserted:
  "old_references (stored_1 1 False) = set (split CHR '';'' ''7;7'') \<and>
   merge_article [stored_1 1 False] article_1 = Done [stored_1 1 False, stored_1 2 True]"
  by (simp add: run_defs old_references_def)

text \<open>
  C6. The code at the failing input: the record inserted for an article carries no
  file name or number (\<open>filename\<close> is read by \<open>get_last_file\<close>, and nothing writes
  it), so the last number cannot be read from the collection afterwards.
\<close>

theorem inserted_record_without_batch_number:
  "merge_all [] [article_1] = Done [stored_1 1 True] \<and>
   filename (stored_1 1 True) = None \<and>
   update_database [] [article_1] = Done [stored_1 1 False] \<and>
   last_number_of [stored_1 1 False] = Inl (KeyError ''filename'')"
  by (simp add: run_defs parse_defs)

text \<open>
  C7, as the code has it. An article without \<open>pmid\<close> raises KeyError inside the
  \<open>try\<close> of \<open>update_database\<close>: when the articles before it merge without error
  they stay merged, the articles after it are not looked at and the second loop does
  not run; the handler reports that one error and raises it again.
\<close>

theorem malformed_record_aborts:
  assumes "pmid bad = None"
  shows "update_database coll (before @ bad # after) =
           (case merge_all coll before of
              Done c \<Rightarrow> Raised (KeyError ''pmid'') c
            | Raised e c \<Rightarrow> Raised e c) \<and>
         update_database_reports coll (before @ bad # after) =
           (case merge_all coll before of
              Done c \<Rightarrow> [KeyError ''pmid'']
            | Raised e c \<Rightarrow> [e])"
  using assms
  by (simp add: update_database_reports_def update_database_def merge_all_append
      merge_article_def split: outcome.splits)

theorem malformed_record_aborts_witness:
  "pmid article_no_pmid = None \<and>
   update_database [] ([article_1] @ article_no_pmid # [article_3]) =
     Raised (KeyError ''pmid'') [stored_1 1 True] \<and>
   update_database_reports [] ([article_1] @ article_no_pmid # [article_3]) =
     [KeyError ''pmid'']"
  using malformed_record_aborts [of article_no_pmid "[]" "[article_1]" "[article_3]"]
  by (simp add: merge_article_def find_one_id_def insert_one_def fresh_id_def reference_docs_def)

text \<open>
  C7 as stated fails: of three articles with the second malformed, only the first is
  stored; the third is never merged.
\<close>

theorem malformed_record_stops_batch:
  "update_database [] [article_1, article_no_pmid, article_3] =
     Raised (KeyError ''pmid'') [stored_1 1 True]"
  by (simp add: run_defs)

section \<open>Resolved identifiers\<close>

lemma key_ok_iff: "key_ok d = (\<forall>x. doc_id d = Some (StrId x) \<longrightarrow> pmid d = Some x)"
  by (auto simp: key_ok_def split: option.splits ident.splits)

lemma ref_ok_mono:
  "set (map doc_id c) \<subseteq> set (map doc_id c') \<Longrightarrow> ref_ok c r \<Longrightarrow> ref_ok c' r"
  unfolding ref_ok_def find_one_id_None_iff by (auto split: option.splits)

lemma ref_ok_cong:
  "set (map doc_id c) = set (map doc_id c') \<Longrightarrow> ref_ok c = ref_ok c'"
  by (rule ext) (metis ref_ok_mono order_refl)

lemma update_one_list_all:
  "list_all P c \<Longrightarrow> (\<And>d. d \<in> set c \<Longrightarrow> doc_id d = Some k \<Longrightarrow> P d \<Longrightarrow> P (f d)) \<Longrightarrow>
   list_all P (update_one k f c)"
  by (induction c) auto

lemma ref_ok_reference_docs: "list_all (ref_ok c) (reference_docs xs)"
  by (simp add: reference_docs_def list_all_iff ref_ok_def)

lemma insert_one_inv:
  assumes inv: "store_inv c" and k: "key_ok d" and r: "list_all (\<lambda>r. idArticle r = None) (refs_of d)"
  shows "store_inv (store_of (insert_one c d))"
proof (cases "insert_one c d")
  case (Raised e c')
  then have "c' = c" by (auto simp: insert_one_def split: option.splits if_splits)
  then show ?thesis using Raised inv by simp
next
  case (Done c')
  then obtain d' where c': "c' = c @ [d']" and d': "key_ok d'" "refs_of d' = refs_of d"
    using k by (auto simp: insert_one_def key_ok_iff refs_of_def fresh_id_def
        split: option.splits if_splits)
  have sub: "set (map doc_id c) \<subseteq> set (map doc_id c')" using c' by auto
  have "list_all (ref_ok c') (refs_of d')"
    using r d'(2) by (auto simp: list_all_iff ref_ok_def)
  moreover have "list_all (\<lambda>x. list_all (ref_ok c') (refs_of x)) c"
    using inv ref_ok_mono [OF sub] by (auto simp: store_inv_def list_all_iff)
  ultimately show ?thesis using Done inv d'(1) c' by (simp add: store_inv_def)
qed

lemma update_set_inv:
  assumes inv: "store_inv c" and p: "pmid a = Some p"
    and r: "references a = Some rs" "list_all (\<lambda>r. idArticle r = None) rs"
  shows "store_inv (store_of (update_set c (StrId p) a))"
proof (cases "doc_id a \<noteq> None \<and> doc_id a \<noteq> Some (StrId p)")
  case True
  then have "update_set c (StrId p) a = Raised WriteError c"
    unfolding update_set_def by (rule if_P)
  then show ?thesis using inv by simp
next
  case False
  then have us: "update_set c (StrId p) a = Done (update_one (StrId p) (set_fields a) c)"
    unfolding update_set_def by (rule if_not_P)
  let ?c' = "update_one (StrId p) (set_fields a) c"
  have ids: "map doc_id ?c' = map doc_id c"
    by (rule ids_update_one) (simp add: set_fields_def)
  have rk: "ref_ok ?c' = ref_ok c" using ref_ok_cong [of ?c' c] ids by simp
  have 1: "list_all key_ok ?c'"
    using inv p by (intro update_one_list_all)
      (auto simp: store_inv_def key_ok_iff set_fields_def over_def)
  have 2: "list_all (\<lambda>d. list_all (ref_ok c) (refs_of d)) ?c'"
    using inv r by (intro update_one_list_all)
      (auto simp: store_inv_def refs_of_def set_fields_def over_def list_all_iff ref_ok_def)
  show ?thesis using us 1 2 rk by (simp add: store_inv_def)
qed

lemma refs_reference_docs: "list_all (\<lambda>r. idArticle r = None) (reference_docs xs)"
  by (simp add: reference_docs_def list_all_iff)

lemma merge_article_inv:
  assumes inv: "store_inv c" and k: "key_ok a"
  shows "store_inv (store_of (merge_article c a))"
proof (cases "pmid a")
  case None
  then show ?thesis using inv by (simp add: merge_article_def)
next
  case (Some p)
  show ?thesis
  proof (cases "reference a")
    case None
    then show ?thesis using inv Some by (simp add: merge_article_def)
  next
    case (Some r)
    let ?m = "a\<lparr>updated := Some True,
                references := Some (reference_docs (split CHR '';'' r))\<rparr>"
    have km: "key_ok ?m" using k by (simp add: key_ok_iff)
    have rm: "list_all (\<lambda>r. idArticle r = None) (refs_of ?m)"
      by (simp add: refs_of_def refs_reference_docs)
    have i: "store_inv (store_of (insert_one c ?m))"
      by (rule insert_one_inv [OF inv km rm])
    have u: "store_inv (store_of (update_set c (StrId p) ?m))"
      using \<open>pmid a = Some p\<close>
      by (intro update_set_inv [OF inv, where rs = "reference_docs (split CHR '';'' r)"])
        (simp_all add: refs_reference_docs)
    show ?thesis
      using \<open>pmid a = Some p\<close> Some i u inv
      by (simp add: merge_article_def Let_def split: option.splits)
  qed
qed

lemma merge_all_inv:
  "store_inv c \<Longrightarrow> list_all key_ok articles \<Longrightarrow> store_inv (store_of (merge_all c articles))"
proof (induction articles arbitrary: c)
  case Nil
  then show ?case by simp
next
  case (Cons a rest)
  have "store_inv (store_of (merge_article c a))"
    using Cons.prems by (intro merge_article_inv) simp_all
  then show ?case using Cons by (cases "merge_article c a") simp_all
qed

lemma resolve_ref_ok: "ref_ok c r \<Longrightarrow> ref_ok c (resolve_ref c r)"
  unfolding resolve_ref_ids by (simp add: ref_ok_def find_one_id_None_iff)

lemma resolve_loop_inv:
  "store_inv c \<Longrightarrow> (\<forall>a \<in> set arts. list_all (ref_ok c) (refs_of a)) \<Longrightarrow>
   store_inv (store_of (resolve_loop c arts))"
proof (induction arts arbitrary: c)
  case Nil
  then show ?case by simp
next
  case (Cons a rest)
  show ?case
  proof (cases "references a")
    case None
    then show ?thesis using Cons.prems by simp
  next
    case (Some refs)
    show ?thesis
    proof (cases "doc_id a")
      case None
      then show ?thesis using Cons.prems Some by simp
    next
      case (Some k)
      let ?f = "\<lambda>d. d\<lparr>references := Some (map (resolve_ref c) refs), updated := Some False\<rparr>"
      let ?c' = "update_one k ?f c"
      have ids: "map doc_id ?c' = map doc_id c" by (rule ids_update_one) simp
      have rk: "ref_ok ?c' = ref_ok c" using ref_ok_cong [of ?c' c] ids by simp
      have refs_ok: "list_all (ref_ok c) refs"
        using Cons.prems(2) \<open>references a = Some refs\<close> by (simp add: refs_of_def)
      have 1: "list_all key_ok ?c'"
        using Cons.prems(1) by (intro update_one_list_all) (auto simp: store_inv_def key_ok_iff)
      have 2: "list_all (\<lambda>d. list_all (ref_ok c) (refs_of d)) ?c'"
        using Cons.prems(1) refs_ok
        by (intro update_one_list_all)
          (auto simp: store_inv_def refs_of_def list_all_iff intro: resolve_ref_ok)
      have inv': "store_inv ?c'" using 1 2 rk by (simp add: store_inv_def)
      have rest: "\<forall>b \<in> set rest. list_all (ref_ok ?c') (refs_of b)"
        using Cons.prems(2) rk by simp
      have "resolve_loop c (a # rest) = resolve_loop ?c' rest"
        using Some \<open>references a = Some refs\<close> by simp
      then show ?thesis using Cons.IH [OF inv' rest] by simp
    qed
  qed
qed

lemma resolve_all_inv: "store_inv c \<Longrightarrow> store_inv (store_of (resolve_all c))"
  unfolding resolve_all_def
  by (rule resolve_loop_inv) (auto simp: store_inv_def list_all_iff)

lemma update_database_inv:
  "store_inv c \<Longrightarrow> list_all key_ok articles \<Longrightarrow>
   store_inv (store_of (update_database c articles))"
  using merge_all_inv [of c articles] resolve_all_inv
  by (cases "merge_all c articles") (simp_all add: update_database_def)

lemma main_loop_inv:
  "store_inv c \<Longrightarrow> (\<And>f arts. fetch f = Inr arts \<Longrightarrow> list_all key_ok arts) \<Longrightarrow>
   store_inv (fst (store_of (main_loop fetch (c, seen) todo)))"
proof (induction todo arbitrary: c seen)
  case Nil
  then show ?case by simp
next
  case (Cons f fs)
  show ?case
  proof (cases "fetch f")
    case (Inl e)
    then show ?thesis using Cons.prems by simp
  next
    case (Inr arts)
    have inv': "store_inv (store_of (update_database c arts))"
      using Cons.prems Inr by (intro update_database_inv) blast+
    show ?thesis
    proof (cases "update_database c arts")
      case (Raised e c')
      then show ?thesis using inv' Inr by simp
    next
      case (Done c')
      then show ?thesis using inv' Inr Cons.IH [of c' "seen @ [f]"] Cons.prems(2) by simp
    qed
  qed
qed

lemma store_inv_reading:
  assumes "store_inv c" and "d \<in> set c" and "references d = Some rs" and "r \<in> set rs"
  shows "idArticle r = None \<or>
         (\<exists>t \<in> set c. idArticle r = doc_id t \<and> doc_id t = Some (StrId (ref_pmid r)) \<and>
                       pmid t = Some (ref_pmid r))"
proof (cases "idArticle r")
  case None
  then show ?thesis by simp
next
  case (Some k)
  have "ref_ok c r" using assms by (auto simp: store_inv_def list_all_iff refs_of_def)
  then have k: "k = StrId (ref_pmid r)" and f: "find_one_id c k \<noteq> None"
    using Some unfolding ref_ok_def by auto
  then obtain t where t: "find_one_id c k = Some t" by auto
  from find_one_id_SomeD [OF t] have tin: "t \<in> set c" and tid: "doc_id t = Some k" by simp_all
  have "key_ok t" using assms(1) tin by (simp add: store_inv_def list_all_iff)
  then have "pmid t = Some (ref_pmid r)" using tid k by (simp add: key_ok_iff)
  then have "idArticle r = doc_id t \<and> doc_id t = Some (StrId (ref_pmid r)) \<and>
             pmid t = Some (ref_pmid r)"
    using Some tid k by simp
  then show ?thesis using tin by blast
qed

text \<open>
  C9. Starting from a collection that satisfies the invariant (the empty one does),
  and merging articles whose \<open>_id\<close>, when it is a string, is their PMID, every state
  \<open>update_database\<close> leaves, after the first loop, at the end or where it raised,
  satisfies the invariant again: every \<open>idArticle\<close> is \<open>None\<close> or the \<open>_id\<close> of a
  stored document whose key and \<open>pmid\<close> are the PMID the entry cites.
\<close>

theorem resolved_id_is_target_id:
  assumes "store_inv coll" and "list_all key_ok articles"
    and "coll' = store_of (merge_all coll articles) \<or>
         coll' = store_of (update_database coll articles)"
  shows "store_inv coll' \<and>
         (\<forall>d \<in> set coll'. \<forall>r \<in> set (refs_of d).
            idArticle r = None \<or>
            (\<exists>t \<in> set coll'. idArticle r = doc_id t \<and> doc_id t = Some (StrId (ref_pmid r)) \<and>
                              pmid t = Some (ref_pmid r)))"
proof -
  have inv: "store_inv coll'"
    using assms merge_all_inv update_database_inv by blast
  moreover have "\<forall>d \<in> set coll'. \<forall>r \<in> set (refs_of d).
            idArticle r = None \<or>
            (\<exists>t \<in> set coll'. idArticle r = doc_id t \<and> doc_id t = Some (StrId (ref_pmid r)) \<and>
                              pmid t = Some (ref_pmid r))"
  proof (intro ballI)
    fix d r assume d: "d \<in> set coll'" and r: "r \<in> set (refs_of d)"
    then obtain rs where "references d = Some rs" "r \<in> set rs"
      by (cases "references d") (auto simp: refs_of_def)
    then show "idArticle r = None \<or>
            (\<exists>t \<in> set coll'. idArticle r = doc_id t \<and> doc_id t = Some (StrId (ref_pmid r)) \<and>
                              pmid t = Some (ref_pmid r))"
      using store_inv_reading [OF inv d] by blast
  qed
  ultimately show ?thesis by blast
qed

theorem resolved_id_is_target_id_witness:
  "store_inv [] \<and> list_all key_ok [article_keyed ''1'' ''2;9'', article_keyed ''2'' ''''] \<and>
   update_database [] [article_keyed ''1'' ''2;9'', article_keyed ''2'' ''''] =
     Done [(article_keyed ''1'' ''2;9'')
             \<lparr>updated := Some False,
              references := Some [cite ''2'' (Some (StrId ''2'')), cite ''9'' None]\<rparr>,
           (article_keyed ''2'' '''')
             \<lparr>updated := Some False, references := Some [cite '''' None]\<rparr>] \<and>
   store_inv (store_of (update_database [] [article_keyed ''1'' ''2;9'', article_keyed ''2'' '''']))"
proof -
  let ?arts = "[article_keyed ''1'' ''2;9'', article_keyed ''2'' '''']"
  have h1: "store_inv []" by (simp add: store_inv_def)
  have h2: "list_all key_ok ?arts" by (simp add: key_ok_def)
  have e: "update_database [] ?arts =
     Done [(article_keyed ''1'' ''2;9'')
             \<lparr>updated := Some False,
              references := Some [cite ''2'' (Some (StrId ''2'')), cite ''9'' None]\<rparr>,
           (article_keyed ''2'' '''')
             \<lparr>updated := Some False, references := Some [cite '''' None]\<rparr>]"
    by (simp add: run_defs)
  from resolved_id_is_target_id [OF h1 h2, of "store_of (update_database [] ?arts)"]
  have "store_inv (store_of (update_database [] ?arts))" by blast
  with h1 h2 e show ?thesis by blast
qed

text \<open>The same over the \<open>try\<close> block of \<open>main\<close>, any number of files.\<close>

lemma main_try_inv:
  assumes "store_inv coll" and "\<And>f arts. fetch f = Inr arts \<Longrightarrow> list_all key_ok arts"
  shows "store_inv (fst (store_of (main_try fetch coll files)))"
  using assms main_loop_inv [of coll fetch "[]"]
  by (auto simp: main_try_def split: sum.splits)

lemma main_inv:
  assumes "store_inv coll"
  shows "store_inv (fst (store_of (main fetch coll files)))"
  using assms by (simp add: main_def setup_logger_def)

section \<open>Unique identifiers and repeated merges\<close>

lemma foldr_max_ge: "x \<in> set xs \<Longrightarrow> x \<le> foldr max xs (0::nat)"
  by (induction xs) (auto simp: max_def)

lemma fresh_id_new: "Some (fresh_id coll) \<notin> set (map doc_id coll)"
proof
  assume "Some (fresh_id coll) \<in> set (map doc_id coll)"
  then obtain d where d: "d \<in> set coll" "doc_id d = Some (fresh_id coll)" by auto
  let ?m = "foldr max (map (oid_num \<circ> doc_id) coll) 0"
  have "oid_num (doc_id d) \<in> set (map (oid_num \<circ> doc_id) coll)" using d(1) by auto
  then have "oid_num (doc_id d) \<le> ?m" by (rule foldr_max_ge)
  moreover have "oid_num (doc_id d) = Suc ?m" using d(2) by (simp add: fresh_id_def)
  ultimately show False by simp
qed

lemma insert_one_ids_ok: "ids_ok c \<Longrightarrow> ids_ok (store_of (insert_one c d))"
  using fresh_id_new [of c]
  by (auto simp: insert_one_def ids_ok_def find_one_id_None_iff split: option.splits)

lemma update_set_ids: "map doc_id (store_of (update_set c k a)) = map doc_id c"
  by (simp add: update_set_def ids_update_one set_fields_def)

lemma update_set_ids_ok: "ids_ok c \<Longrightarrow> ids_ok (store_of (update_set c k a))"
  unfolding ids_ok_def update_set_ids by assumption

lemma merge_article_ids_ok:
  assumes "ids_ok c"
  shows "ids_ok (store_of (merge_article c a))"
proof (cases "pmid a")
  case None
  then show ?thesis using assms by (simp add: merge_article_def)
next
  case (Some p)
  show ?thesis
  proof (cases "reference a")
    case None
    then show ?thesis using assms Some by (simp add: merge_article_def)
  next
    case (Some r)
    show ?thesis
      using \<open>pmid a = Some p\<close> Some assms insert_one_ids_ok [OF assms] update_set_ids_ok [OF assms]
      by (simp add: merge_article_def Let_def split: option.splits)
  qed
qed

lemma merge_all_ids_ok: "ids_ok c \<Longrightarrow> ids_ok (store_of (merge_all c articles))"
proof (induction articles arbitrary: c)
  case Nil
  then show ?case by simp
next
  case (Cons a rest)
  have "ids_ok (store_of (merge_article c a))" using Cons.prems by (rule merge_article_ids_ok)
  then show ?case using Cons.IH by (cases "merge_article c a") simp_all
qed

lemma resolve_loop_ids: "map doc_id (store_of (resolve_loop c arts)) = map doc_id c"
  by (induction arts arbitrary: c) (auto simp: ids_update_one split: option.splits)

lemma update_database_ids_ok: "ids_ok c \<Longrightarrow> ids_ok (store_of (update_database c articles))"
  using merge_all_ids_ok [of c articles]
  by (cases "merge_all c articles")
    (simp_all add: update_database_def resolve_all_def ids_ok_def resolve_loop_ids)

text \<open>
  A batch whose articles are all found by \<open>_id\<close> with an equal set of cited PMIDs
  is merged without a write; with no document flagged, \<open>update_database\<close> leaves the
  collection as it was.
\<close>

lemma merge_all_noop:
  assumes "\<forall>a \<in> set articles. \<exists>p r ex. pmid a = Some p \<and> reference a = Some r \<and>
             find_one_id coll (StrId p) = Some ex \<and>
             old_references ex = set (split CHR '';'' r)"
  shows "merge_all coll articles = Done coll"
  using assms by (induction articles) (auto simp: merge_article_def)

lemma update_database_noop:
  assumes "\<forall>a \<in> set articles. \<exists>p r ex. pmid a = Some p \<and> reference a = Some r \<and>
             find_one_id coll (StrId p) = Some ex \<and>
             old_references ex = set (split CHR '';'' r)"
    and "\<forall>d \<in> set coll. updated d \<noteq> Some True"
  shows "update_database coll articles = Done coll"
proof -
  have "filter (\<lambda>d. updated d = Some True) coll = []" using assms(2) by (simp add: filter_empty_conv)
  then show ?thesis using merge_all_noop [OF assms(1)]
    by (simp add: update_database_def resolve_all_def)
qed

text \<open>
  Why the lookup misses: an article without \<open>_id\<close> is stored under an ObjectId,
  and in a collection whose keys are all ObjectIds no PMID is ever found, so every
  such article is inserted, whatever the collection already holds.
\<close>

lemma article_without_id_is_inserted:
  assumes "list_all (\<lambda>d. \<exists>n. doc_id d = Some (ObjectId n)) coll"
    and "doc_id article = None" and "pmid article = Some p" and "reference article = Some r"
  shows "\<exists>d. merge_article coll article = Done (coll @ [d]) \<and>
             doc_id d = Some (fresh_id coll) \<and> pmid d = Some p \<and>
             list_all (\<lambda>d. \<exists>n. doc_id d = Some (ObjectId n)) (coll @ [d])"
proof -
  have "Some (StrId p) \<notin> set (map doc_id coll)"
    using assms(1) by (auto simp: list_all_iff)
  then have "find_one_id coll (StrId p) = None" by (simp add: find_one_id_None_iff)
  then show ?thesis
    using assms by (simp add: merge_article_def insert_one_def fresh_id_def)
qed

text \<open>
  C1. The code at the failing input: an article as the parser returns it has no
  \<open>_id\<close>, so \<open>insert_one\<close> stores it under a generated ObjectId; merging the same
  batch again, the lookup by \<open>_id = pmid\<close> finds nothing and the article is inserted
  a second time. The collection after the second merge differs from the first.
\<close>

theorem remerge_same_batch_inserts_again:
  "update_database [] [article_1] = Done [stored_1 1 False] \<and>
   update_database [stored_1 1 False] [article_1] = Done [stored_1 1 False, stored_1 2 False]"
  by (simp add: run_defs)

text \<open>
  C2. The same two merges leave two documents with PMID \<open>1\<close>, under two ObjectIds.
\<close>

theorem remerge_leaves_two_records_per_pmid:
  "(case update_database [] [article_1] of
      Done coll \<Rightarrow>
        (case update_database coll [article_1] of
           Done coll' \<Rightarrow> map pmid coll' = [Some ''1'', Some ''1''] \<and>
                         map doc_id coll' = [Some (ObjectId 1), Some (ObjectId 2)]
         | Raised e coll' \<Rightarrow> False)
    | Raised e coll \<Rightarrow> False)"
  by (simp add: run_defs)

section \<open>The last file number\<close>

text \<open>
  C4. The code at the failing input: \<open>get_last_file\<close> reads the first document of
  the collection, so with files 3 and 7 stored in that order the last number is 3,
  not the maximum 7. On the empty collection it is 0.
\<close>

theorem get_last_file_takes_first_document:
  "last_number_of [file_doc 1 ''pubmed23n0003.xml.gz'', file_doc 2 ''pubmed23n0007.xml.gz''] = Inr 3 \<and>
   map parse_filename [''pubmed23n0003.xml.gz'', ''pubmed23n0007.xml.gz''] = [Inr 3, Inr 7] \<and>
   last_number_of [] = Inr 0"
  by (simp add: parse_defs)

end
